theory Spec2Isabelle
  imports Complex_Main
begin

section \<open>Data model\<close>

text \<open>
  The tables are those of the migration (User, Session, Match, WaitingQueueEntry,
  RatingHistory) with the columns the server reads or writes in the scheduling and rating
  handlers. Row identifiers are opaque unique keys; they are modelled as natural numbers
  drawn from a counter kept with the tables. The column \<open>rating\<close> is \<open>REAL\<close> and JavaScript
  numbers are doubles; both are modelled as mathematical reals. A table is the list of its
  rows in insertion order.
\<close>

type_synonym ident = nat
type_synonym time = nat

datatype MatchStatus = SCHEDULED | ONGOING | FINISHED

record User =
  u_id :: ident
  u_rating :: real

record Session =
  s_id :: ident
  s_courts :: int
  s_isActive :: bool

record Match =
  m_id :: ident
  m_sessionId :: ident
  m_court :: int
  m_status :: MatchStatus
  m_startedAt :: "time option"
  m_endedAt :: "time option"
  m_p1Id :: ident
  m_p2Id :: ident
  m_p3Id :: ident
  m_p4Id :: ident
  m_winnerTeam :: "int option"

record WaitingQueueEntry =
  q_id :: ident
  q_sessionId :: ident
  q_userId :: ident
  q_position :: int
  q_joinedAt :: time

record RatingHistory =
  h_userId :: ident
  h_change :: real
  h_rating :: real
  h_matchId :: "ident option"

record db =
  users :: "User list"
  sessions :: "Session list"
  matches :: "Match list"
  waitingQueue :: "WaitingQueueEntry list"
  history :: "RatingHistory list"
  nextId :: nat

text \<open>
  What a handler answers when it does not answer with its result: the 400 response carrying
  the schema error, the 404 response, the 400 response \<open>Invalid session\<close>, the thrown
  \<open>Session not found\<close>, and a promise rejected by the database client (a row to update
  that is absent, a required relation that is missing, a violated foreign key).
\<close>

datatype error = ZodError | MatchNotFound | InvalidSession | SessionNotFound | PrismaError

text \<open>The value of a field of a JSON request body.\<close>

datatype json = JNumber real | JString string | JBool bool | JNull | JAbsent

section \<open>Rating model\<close>

definition expectedScore :: "real \<Rightarrow> real \<Rightarrow> real" where
  "expectedScore ratingA ratingB = 1 / (1 + 10 powr ((ratingB - ratingA) / 400))"

definition eloUpdate :: "real \<Rightarrow> real \<Rightarrow> real \<Rightarrow> real \<Rightarrow> real" where
  "eloUpdate current expected score k = current + k * (score - expected)"

definition averageTeamRating :: "real \<Rightarrow> real \<Rightarrow> real" where
  "averageTeamRating a b = (a + b) / 2"

section \<open>Table access\<close>

definition findUser :: "db \<Rightarrow> ident \<Rightarrow> User option" where
  "findUser d i = find (\<lambda>u. u_id u = i) (users d)"

definition findSession :: "db \<Rightarrow> ident \<Rightarrow> Session option" where
  "findSession d i = find (\<lambda>s. s_id s = i) (sessions d)"

definition findMatch :: "db \<Rightarrow> ident \<Rightarrow> Match option" where
  "findMatch d i = find (\<lambda>m. m_id m = i) (matches d)"

text \<open>\<open>update\<close> with a \<open>where\<close> on the primary key: the row with that key is rewritten.\<close>

fun updateFirst :: "('a \<Rightarrow> bool) \<Rightarrow> ('a \<Rightarrow> 'a) \<Rightarrow> 'a list \<Rightarrow> 'a list" where
  "updateFirst P f [] = []"
| "updateFirst P f (x # xs) = (if P x then f x # xs else x # updateFirst P f xs)"

definition setRating :: "ident \<Rightarrow> real \<Rightarrow> db \<Rightarrow> db" where
  "setRating i r d = d\<lparr>users := updateFirst (\<lambda>u. u_id u = i) (\<lambda>u. u\<lparr>u_rating := r\<rparr>) (users d)\<rparr>"

text \<open>The filter \<open>sessionId, status in [SCHEDULED, ONGOING]\<close> of the two match queries.\<close>

definition activeMatch :: "ident \<Rightarrow> Match \<Rightarrow> bool" where
  "activeMatch sid m \<longleftrightarrow> m_sessionId m = sid \<and> (m_status m = SCHEDULED \<or> m_status m = ONGOING)"

definition activeCourts :: "db \<Rightarrow> ident \<Rightarrow> int list" where
  "activeCourts d sid = map m_court (filter (activeMatch sid) (matches d))"

text \<open>
  The waiting list of a session, ordered by position and then by joining time; rows equal
  in both keep their table order.
\<close>

definition sessionQueue :: "db \<Rightarrow> ident \<Rightarrow> WaitingQueueEntry list" where
  "sessionQueue d sid =
     sort_key q_position (sort_key q_joinedAt (filter (\<lambda>q. q_sessionId q = sid) (waitingQueue d)))"

text \<open>
  \<open>include: { user: true }\<close>: each entry comes with its user row. The relation is
  required, so the client rejects the query when a row is missing (the foreign key of the
  schema keeps that from happening).
\<close>

fun includeUsers :: "db \<Rightarrow> WaitingQueueEntry list \<Rightarrow> User list option" where
  "includeUsers d [] = Some []"
| "includeUsers d (q # qs) =
     (case findUser d (q_userId q) of
        None \<Rightarrow> None
      | Some u \<Rightarrow> (case includeUsers d qs of None \<Rightarrow> None | Some us \<Rightarrow> Some (u # us)))"

section \<open>Match scheduler\<close>

text \<open>\<open>while (usedCourts.has(court)) court++\<close>\<close>

function skipUsed :: "int list \<Rightarrow> int \<Rightarrow> int" where
  "skipUsed used court = (if court \<in> set used then skipUsed used (court + 1) else court)"
  by pat_completeness auto
termination
proof (relation "measure (\<lambda>(used, court). length (filter (\<lambda>u. court \<le> u) used))")
  show "wf (measure (\<lambda>(used, court). length (filter (\<lambda>u. court \<le> u) used)))"
    by simp
next
  fix used :: "int list" and court :: int
  assume m: "court \<in> set used"
  have "filter (\<lambda>u. court + 1 \<le> u) used = filter (\<lambda>u. court + 1 \<le> u) (filter (\<lambda>u. court \<le> u) used)"
    by (simp add: conj_commute) (rule filter_cong, auto)
  moreover have "length (filter (\<lambda>u. court + 1 \<le> u) (filter (\<lambda>u. court \<le> u) used))
      < length (filter (\<lambda>u. court \<le> u) used)"
    by (rule length_filter_less [of court]) (use m in auto)
  ultimately show "((used, court + 1), (used, court))
      \<in> measure (\<lambda>(used, court). length (filter (\<lambda>u. court \<le> u) used))"
    by simp
qed

declare skipUsed.simps [simp del]

text \<open>
  The exchange of \<open>players[i + 3]\<close> and \<open>players[i + 4]\<close>; \<open>c\<close> is the outcome of the test
  \<open>Math.random() < 0.2\<close>.
\<close>

definition maybeSwap :: "bool \<Rightarrow> nat \<Rightarrow> 'a list \<Rightarrow> 'a list" where
  "maybeSwap c i players =
     (if c \<and> i + 4 < length players
      then players[i + 3 := players ! (i + 4), i + 4 := players ! (i + 3)]
      else players)"

definition slice :: "nat \<Rightarrow> nat \<Rightarrow> 'a list \<Rightarrow> 'a list" where
  "slice i j xs = take (j - i) (drop i xs)"

definition newMatch :: "db \<Rightarrow> ident \<Rightarrow> int \<Rightarrow> User list \<Rightarrow> Match" where
  "newMatch d sid court grp =
     \<lparr>m_id = nextId d, m_sessionId = sid, m_court = court, m_status = SCHEDULED,
      m_startedAt = None, m_endedAt = None,
      m_p1Id = u_id (grp ! 0), m_p2Id = u_id (grp ! 1),
      m_p3Id = u_id (grp ! 2), m_p4Id = u_id (grp ! 3), m_winnerTeam = None\<rparr>"

definition createMatch :: "Match \<Rightarrow> db \<Rightarrow> db" where
  "createMatch m d = d\<lparr>matches := matches d @ [m], nextId := nextId d + 1\<rparr>"

definition deleteQueued :: "ident \<Rightarrow> User list \<Rightarrow> db \<Rightarrow> db" where
  "deleteQueued sid grp d =
     d\<lparr>waitingQueue :=
         filter (\<lambda>q. \<not> (q_sessionId q = sid \<and> q_userId q \<in> set (map u_id grp))) (waitingQueue d)\<rparr>"

text \<open>
  The \<open>for\<close> loop of \<open>generateUpcomingMatches\<close>. \<open>coin n\<close> is the outcome of the \<open>n\<close>-th
  test \<open>Math.random() < 0.2\<close> of the call; the test is the left operand of \<open>&&\<close>, so one
  number is drawn in every round.
\<close>

function genLoop ::
  "(nat \<Rightarrow> bool) \<Rightarrow> ident \<Rightarrow> int list \<Rightarrow> int \<Rightarrow> nat \<Rightarrow> nat \<Rightarrow> User list \<Rightarrow> int \<Rightarrow> Match list \<Rightarrow> db
     \<Rightarrow> Match list \<times> db" where
  "genLoop coin sid usedCourts availableCourts n i players court created d =
     (if i + 3 < length players \<and> int (length created) < availableCourts
      then
        let players' = maybeSwap (coin n) i players;
            grp = slice i (i + 4) players';
            m = newMatch d sid court grp;
            d' = deleteQueued sid grp (createMatch m d)
        in genLoop coin sid usedCourts availableCourts (n + 1) (i + 4) players'
             (skipUsed usedCourts (court + 1)) (created @ [m]) d'
      else (created, d))"
  by pat_completeness auto
termination
  by (relation "measure (\<lambda>(coin, sid, used, avail, n, i, players, court, created, d). length players - i)")
     (auto simp: maybeSwap_def)

declare genLoop.simps [simp del]

definition generateUpcomingMatches :: "db \<Rightarrow> (nat \<Rightarrow> bool) \<Rightarrow> ident \<Rightarrow> (error + Match list) \<times> db" where
  "generateUpcomingMatches d coin sessionId =
     (case findSession d sessionId of
        None \<Rightarrow> (Inl SessionNotFound, d)
      | Some session \<Rightarrow>
          let inUse = int (length (filter (activeMatch sessionId) (matches d)));
              availableCourts = max 0 (s_courts session - inUse)
          in if availableCourts \<le> 0 then (Inr [], d)
             else
               (case includeUsers d (sessionQueue d sessionId) of
                  None \<Rightarrow> (Inl PrismaError, d)
                | Some us \<Rightarrow>
                    let players = sort_key u_rating us;
                        usedCourts = activeCourts d sessionId;
                        court = skipUsed usedCourts 1;
                        r = genLoop coin sessionId usedCourts availableCourts 0 0 players court [] d
                    in (Inr (fst r), snd r)))"

section \<open>Queue store\<close>

text \<open>
  The handlers below sit behind the token check of the server; the model starts after
  it, with the identity the token carries.
\<close>

text \<open>
  \<open>POST /api/session/:sessionId/queue/join\<close>, for the player the token names. The upsert
  returns the row of the pair when there is one (\<open>update: {}\<close>) and inserts one otherwise;
  the insertion is rejected when the player has no row.
\<close>

definition joinQueue :: "db \<Rightarrow> time \<Rightarrow> ident \<Rightarrow> ident \<Rightarrow> (error + WaitingQueueEntry) \<times> db" where
  "joinQueue d now sessionId userId =
     (case findSession d sessionId of
        None \<Rightarrow> (Inl InvalidSession, d)
      | Some session \<Rightarrow>
          if \<not> s_isActive session then (Inl InvalidSession, d)
          else
            let ps = map q_position (filter (\<lambda>q. q_sessionId q = sessionId) (waitingQueue d));
                position = (if ps = [] then 0 else Max (set ps)) + 1
            in (case find (\<lambda>q. q_sessionId q = sessionId \<and> q_userId q = userId) (waitingQueue d) of
                  Some entry \<Rightarrow> (Inr entry, d)
                | None \<Rightarrow>
                    (case findUser d userId of
                       None \<Rightarrow> (Inl PrismaError, d)
                     | Some u \<Rightarrow>
                         let entry = \<lparr>q_id = nextId d, q_sessionId = sessionId, q_userId = userId,
                                      q_position = position, q_joinedAt = now\<rparr>
                         in (Inr entry,
                             d\<lparr>waitingQueue := waitingQueue d @ [entry], nextId := nextId d + 1\<rparr>))))"

section \<open>Match lifecycle and rating engine\<close>

text \<open>\<open>POST /api/match/:matchId/start\<close>\<close>

definition startMatch :: "db \<Rightarrow> time \<Rightarrow> ident \<Rightarrow> (error + Match) \<times> db" where
  "startMatch d now matchId =
     (case findMatch d matchId of
        None \<Rightarrow> (Inl PrismaError, d)
      | Some m \<Rightarrow>
          (Inr (m\<lparr>m_status := ONGOING, m_startedAt := Some now\<rparr>),
           d\<lparr>matches := updateFirst (\<lambda>x. m_id x = matchId)
                (\<lambda>x. x\<lparr>m_status := ONGOING, m_startedAt := Some now\<rparr>) (matches d)\<rparr>))"

text \<open>\<open>z.object({ winnerTeam: z.number().min(1).max(2) })\<close>\<close>

fun parseWinnerTeam :: "json \<Rightarrow> real option" where
  "parseWinnerTeam (JNumber x) = (if 1 \<le> x \<and> x \<le> 2 then Some x else None)"
| "parseWinnerTeam _ = None"

text \<open>
  \<open>POST /api/match/:matchId/finish\<close>, in two parts. The first is the rating computation
  with its writes (from \<open>team1Avg\<close> to the \<open>createMany\<close> of the history rows): the four
  rating updates form one transaction, the history rows follow it.
\<close>

definition recordResult :: "db \<Rightarrow> ident \<Rightarrow> Match \<Rightarrow> User \<Rightarrow> User \<Rightarrow> User \<Rightarrow> User \<Rightarrow> real \<Rightarrow> db" where
  "recordResult d matchId m p1 p2 p3 p4 winnerTeam =
     (let team1Avg = averageTeamRating (u_rating p1) (u_rating p2);
          team2Avg = averageTeamRating (u_rating p3) (u_rating p4);
          score1 = (if winnerTeam = 1 then 1 else 0);
          score2 = (if winnerTeam = 2 then 1 else 0);
          exp1 = expectedScore team1Avg team2Avg;
          exp2 = expectedScore team2Avg team1Avg;
          newTeam1 = eloUpdate team1Avg team2Avg score1 32;
          newTeam2 = eloUpdate team2Avg team1Avg score2 32;
          delta1 = newTeam1 - team1Avg;
          delta2 = newTeam2 - team2Avg;
          d1 = setRating (m_p4Id m) (u_rating p4 + delta2 / 2)
                (setRating (m_p3Id m) (u_rating p3 + delta2 / 2)
                  (setRating (m_p2Id m) (u_rating p2 + delta1 / 2)
                    (setRating (m_p1Id m) (u_rating p1 + delta1 / 2) d)))
      in d1\<lparr>history := history d1 @
           [\<lparr>h_userId = m_p1Id m, h_change = delta1 / 2, h_rating = u_rating p1 + delta1 / 2, h_matchId = Some matchId\<rparr>,
            \<lparr>h_userId = m_p2Id m, h_change = delta1 / 2, h_rating = u_rating p2 + delta1 / 2, h_matchId = Some matchId\<rparr>,
            \<lparr>h_userId = m_p3Id m, h_change = delta2 / 2, h_rating = u_rating p3 + delta2 / 2, h_matchId = Some matchId\<rparr>,
            \<lparr>h_userId = m_p4Id m, h_change = delta2 / 2, h_rating = u_rating p4 + delta2 / 2, h_matchId = Some matchId\<rparr>]\<rparr>)"

text \<open>
  The handler around it: validation of the body, lookup of the match with its four
  players, the writes above, the update of the match and the call of the scheduler. The
  handler passes \<open>winnerTeam\<close> to the update as it is; the column is an integer and
  keeps the whole part of the number.
\<close>

definition finishMatch :: "db \<Rightarrow> (nat \<Rightarrow> bool) \<Rightarrow> time \<Rightarrow> ident \<Rightarrow> json \<Rightarrow> (error + Match) \<times> db" where
  "finishMatch d coin now matchId body =
     (case parseWinnerTeam body of
        None \<Rightarrow> (Inl ZodError, d)
      | Some winnerTeam \<Rightarrow>
     (case findMatch d matchId of
        None \<Rightarrow> (Inl MatchNotFound, d)
      | Some m \<Rightarrow>
     (case (findUser d (m_p1Id m), findUser d (m_p2Id m), findUser d (m_p3Id m), findUser d (m_p4Id m)) of
        (Some p1, Some p2, Some p3, Some p4) \<Rightarrow>
          let d2 = recordResult d matchId m p1 p2 p3 p4 winnerTeam;
              fin = (\<lambda>x. x\<lparr>m_status := FINISHED, m_winnerTeam := Some \<lfloor>winnerTeam\<rfloor>, m_endedAt := Some now\<rparr>);
              updated = fin m;
              d3 = d2\<lparr>matches := updateFirst (\<lambda>x. m_id x = matchId) fin (matches d2)\<rparr>;
              g = generateUpcomingMatches d3 coin (m_sessionId m)
          in (case fst g of Inl e \<Rightarrow> (Inl e, snd g) | Inr created \<Rightarrow> (Inr updated, snd g))
      | _ \<Rightarrow> (Inl PrismaError, d))))"

section \<open>Properties stated about the engine\<close>

text \<open>The two teams of a match: the finish handler averages \<open>p1, p2\<close> and \<open>p3, p4\<close>.\<close>

definition team1 :: "Match \<Rightarrow> ident list" where
  "team1 m = [m_p1Id m, m_p2Id m]"

definition team2 :: "Match \<Rightarrow> ident list" where
  "team2 m = [m_p3Id m, m_p4Id m]"

text \<open>
  The grouping as the specification words it: walk the rating-sorted list in consecutive
  groups of four; before a group is formed, and only when a fifth player exists, the
  group's fourth player may be exchanged with the next one in line; stop once the free
  courts are used up or fewer than four players remain. \<open>k\<close> is the number of courts
  still free, \<open>coin n\<close> the outcome of the \<open>n\<close>-th draw.
\<close>

fun specGroups :: "(nat \<Rightarrow> bool) \<Rightarrow> nat \<Rightarrow> nat \<Rightarrow> 'a list \<Rightarrow> 'a list list" where
  "specGroups coin n 0 ps = []"
| "specGroups coin n (Suc k) ps =
     (if length ps < 4 then []
      else
        let ps' = (if coin n \<and> 4 < length ps then ps[3 := ps ! 4, 4 := ps ! 3] else ps)
        in take 4 ps' # specGroups coin (Suc n) k (drop 4 ps'))"

text \<open>The free courts of a session as the scheduler computes them.\<close>

definition availableCourts :: "db \<Rightarrow> Session \<Rightarrow> int" where
  "availableCourts d s =
     max 0 (s_courts s - int (length (filter (activeMatch (s_id s)) (matches d))))"

text \<open>No two scheduled or ongoing matches of one session share a court.\<close>

definition courtsUnique :: "db \<Rightarrow> bool" where
  "courtsUnique d \<longleftrightarrow> (\<forall>sid \<in> set (map m_sessionId (matches d)). distinct (activeCourts d sid))"

text \<open>\<open>c\<close> is the lowest court number, from 1 on, that is not among \<open>occupied\<close>.\<close>

definition lowestFree :: "int list \<Rightarrow> int \<Rightarrow> bool" where
  "lowestFree occupied c \<longleftrightarrow> 1 \<le> c \<and> c \<notin> set occupied \<and> (\<forall>c' \<in> {1..<c}. c' \<in> set occupied)"

text \<open>
  What the scheduler loop keeps about its variable \<open>court\<close>, with \<open>used\<close> the courts held
  before the call and \<open>cs\<close> those given out so far: it is free, above all of \<open>cs\<close>, and
  everything from 1 below it is taken.
\<close>

definition courtInv :: "int list \<Rightarrow> int list \<Rightarrow> int \<Rightarrow> bool" where
  "courtInv used cs court \<longleftrightarrow>
     1 \<le> court \<and> court \<notin> set used \<and> (\<forall>c \<in> set cs. c < court)
     \<and> (\<forall>c'. 1 \<le> c' \<and> c' < court \<longrightarrow> c' \<in> set used \<union> set cs)"

text \<open>The foreign key of the waiting queue: every entry names a user that has a row.\<close>

definition queueUsersExist :: "db \<Rightarrow> bool" where
  "queueUsersExist d \<longleftrightarrow> (\<forall>q \<in> set (waitingQueue d). findUser d (q_userId q) \<noteq> None)"

text \<open>The number of waiting-queue rows of a (session, player) pair.\<close>

definition entriesOf :: "db \<Rightarrow> ident \<Rightarrow> ident \<Rightarrow> nat" where
  "entriesOf d sid uid =
     length (filter (\<lambda>q. q_sessionId q = sid \<and> q_userId q = uid) (waitingQueue d))"

text \<open>The same tables with the active flag of every session set by \<open>b\<close>.\<close>

definition setFlags :: "(Session \<Rightarrow> bool) \<Rightarrow> db \<Rightarrow> db" where
  "setFlags b d = d\<lparr>sessions := map (\<lambda>s. s\<lparr>s_isActive := b s\<rparr>) (sessions d)\<rparr>"

section \<open>Example states\<close>

text \<open>Four players rated 1200 in one scheduled match on court 1 of a five-court session.\<close>

definition stateOneMatch :: db where
  "stateOneMatch =
     \<lparr>users = [\<lparr>u_id = 1, u_rating = 1200\<rparr>, \<lparr>u_id = 2, u_rating = 1200\<rparr>,
               \<lparr>u_id = 3, u_rating = 1200\<rparr>, \<lparr>u_id = 4, u_rating = 1200\<rparr>],
      sessions = [\<lparr>s_id = 10, s_courts = 5, s_isActive = True\<rparr>],
      matches = [\<lparr>m_id = 20, m_sessionId = 10, m_court = 1, m_status = SCHEDULED,
                  m_startedAt = None, m_endedAt = None, m_p1Id = 1, m_p2Id = 2, m_p3Id = 3,
                  m_p4Id = 4, m_winnerTeam = None\<rparr>],
      waitingQueue = [], history = [], nextId = 100\<rparr>"

text \<open>The same match, already finished with team 1 as winner.\<close>

definition stateFinished :: db where
  "stateFinished =
     stateOneMatch\<lparr>matches := [\<lparr>m_id = 20, m_sessionId = 10, m_court = 1, m_status = FINISHED,
                  m_startedAt = Some 3, m_endedAt = Some 5, m_p1Id = 1, m_p2Id = 2, m_p3Id = 3,
                  m_p4Id = 4, m_winnerTeam = Some 1\<rparr>]\<rparr>"

text \<open>A finished match on court 1 and a later scheduled match on the same court.\<close>

definition stateCourtReused :: db where
  "stateCourtReused =
     \<lparr>users = [\<lparr>u_id = 1, u_rating = 1200\<rparr>, \<lparr>u_id = 2, u_rating = 1200\<rparr>,
               \<lparr>u_id = 3, u_rating = 1200\<rparr>, \<lparr>u_id = 4, u_rating = 1200\<rparr>,
               \<lparr>u_id = 5, u_rating = 1200\<rparr>, \<lparr>u_id = 6, u_rating = 1200\<rparr>,
               \<lparr>u_id = 7, u_rating = 1200\<rparr>, \<lparr>u_id = 8, u_rating = 1200\<rparr>],
      sessions = [\<lparr>s_id = 10, s_courts = 5, s_isActive = True\<rparr>],
      matches = [\<lparr>m_id = 20, m_sessionId = 10, m_court = 1, m_status = FINISHED,
                  m_startedAt = Some 3, m_endedAt = Some 5, m_p1Id = 1, m_p2Id = 2, m_p3Id = 3,
                  m_p4Id = 4, m_winnerTeam = Some 1\<rparr>,
                 \<lparr>m_id = 21, m_sessionId = 10, m_court = 1, m_status = SCHEDULED,
                  m_startedAt = None, m_endedAt = None, m_p1Id = 5, m_p2Id = 6, m_p3Id = 7,
                  m_p4Id = 8, m_winnerTeam = None\<rparr>],
      waitingQueue = [], history = [], nextId = 100\<rparr>"

text \<open>
  An inactive two-court session with one ongoing match on court 1 and five players
  waiting, and an active session with nobody waiting.
\<close>

definition stateWaiting :: db where
  "stateWaiting =
     \<lparr>users = [\<lparr>u_id = 1, u_rating = 1300\<rparr>, \<lparr>u_id = 2, u_rating = 1100\<rparr>,
               \<lparr>u_id = 3, u_rating = 1250\<rparr>, \<lparr>u_id = 4, u_rating = 1000\<rparr>,
               \<lparr>u_id = 5, u_rating = 1200\<rparr>, \<lparr>u_id = 6, u_rating = 1200\<rparr>,
               \<lparr>u_id = 7, u_rating = 1200\<rparr>, \<lparr>u_id = 8, u_rating = 1200\<rparr>,
               \<lparr>u_id = 9, u_rating = 1200\<rparr>],
      sessions = [\<lparr>s_id = 10, s_courts = 2, s_isActive = False\<rparr>,
                  \<lparr>s_id = 11, s_courts = 1, s_isActive = True\<rparr>],
      matches = [\<lparr>m_id = 20, m_sessionId = 10, m_court = 1, m_status = ONGOING,
                  m_startedAt = Some 3, m_endedAt = None, m_p1Id = 6, m_p2Id = 7, m_p3Id = 8,
                  m_p4Id = 9, m_winnerTeam = None\<rparr>],
      waitingQueue = [\<lparr>q_id = 30, q_sessionId = 10, q_userId = 1, q_position = 1, q_joinedAt = 1\<rparr>,
                      \<lparr>q_id = 31, q_sessionId = 10, q_userId = 2, q_position = 2, q_joinedAt = 2\<rparr>,
                      \<lparr>q_id = 32, q_sessionId = 10, q_userId = 3, q_position = 3, q_joinedAt = 3\<rparr>,
                      \<lparr>q_id = 33, q_sessionId = 10, q_userId = 4, q_position = 4, q_joinedAt = 4\<rparr>,
                      \<lparr>q_id = 34, q_sessionId = 10, q_userId = 5, q_position = 5, q_joinedAt = 5\<rparr>],
      history = [], nextId = 100\<rparr>"

text \<open>
  A one-court session whose court is held by a scheduled match, with the four players of
  the finished match waiting again.
\<close>

definition stateFull :: db where
  "stateFull =
     stateCourtReused\<lparr>sessions := [\<lparr>s_id = 10, s_courts = 1, s_isActive = True\<rparr>],
       waitingQueue := [\<lparr>q_id = 30, q_sessionId = 10, q_userId = 1, q_position = 1, q_joinedAt = 6\<rparr>,
                        \<lparr>q_id = 31, q_sessionId = 10, q_userId = 2, q_position = 2, q_joinedAt = 6\<rparr>,
                        \<lparr>q_id = 32, q_sessionId = 10, q_userId = 3, q_position = 3, q_joinedAt = 7\<rparr>,
                        \<lparr>q_id = 33, q_sessionId = 10, q_userId = 4, q_position = 4, q_joinedAt = 8\<rparr>]\<rparr>"

text \<open>The draw that never falls below 0.2, and the draw that does so the first time only.\<close>

definition noSwap :: "nat \<Rightarrow> bool" where
  "noSwap n = False"

definition swapFirst :: "nat \<Rightarrow> bool" where
  "swapFirst n = (n = 0)"

section \<open>Rating update on finish\<close>

lemmas finish_eval =
  finishMatch_def recordResult_def findMatch_def findUser_def findSession_def setRating_def
  averageTeamRating_def eloUpdate_def generateUpcomingMatches_def activeMatch_def
  activeCourts_def sessionQueue_def Let_def skipUsed.simps genLoop.simps

text \<open>
  The two expectations of a match add up to 1, so with the expectation handed to
  \<open>eloUpdate\<close> the changes of the two teams would cancel.
\<close>

lemma logistic_pair: "0 < x \<Longrightarrow> 1 / (1 + x) + 1 / (1 + inverse x) = (1::real)"
proof -
  assume x: "0 < x"
  then have "1 / (1 + inverse x) = x / (1 + x)"
    by (simp add: field_simps)
  then show ?thesis
    using x by (simp add: add_divide_distrib [symmetric])
qed

lemma expectedScore_complement: "expectedScore a b + expectedScore b a = 1"
proof -
  have "(a - b) / 400 = - ((b - a) / 400)"
    by (simp add: field_simps)
  then have "10 powr ((a - b) / 400) = inverse (10 powr ((b - a) / 400))"
    by (simp only: powr_minus)
  then show ?thesis
    unfolding expectedScore_def
    using logistic_pair [of "10 powr ((b - a) / 400)"] by simp
qed

lemma intended_deltas_cancel:
  "(eloUpdate t1 (expectedScore t1 t2) 1 32 - t1) + (eloUpdate t2 (expectedScore t2 t1) 0 32 - t2) = 0"
  using expectedScore_complement [of t1 t2] by (simp add: eloUpdate_def algebra_simps)

text \<open>
  C1. Each team's new rating should be \<open>teamAvg + 32 * (score - expected)\<close> with
  \<open>expected = 1 / (1 + 10 powr ((opponentAvg - ownAvg) / 400))\<close>, half of the difference
  going to each member. The handler computes the expectations but hands the opposing
  team's average to \<open>eloUpdate\<close> in the place of the expectation. With four players at
  1200 and team 1 winning, the members of team 1 should move to 1208 and those of team 2
  to 1192; the handler stores -17984 and -18000.
\<close>

theorem finishMatch_rating_not_elo:
  "map u_rating (users (snd (finishMatch stateOneMatch noSwap 7 20 (JNumber 1))))
     = [-17984, -17984, -18000, -18000]
   \<and> 1200 + 32 * (1 - expectedScore 1200 1200) / 2 = 1208
   \<and> 1200 + 32 * (0 - expectedScore 1200 1200) / 2 = 1192"
  by (simp add: stateOneMatch_def finish_eval expectedScore_def)

text \<open>
  C2. The four rating changes applied and recorded for one match should sum to zero. For
  the same match the handler records -19184 twice and -19200 twice, which sum to -76768.
\<close>

theorem finishMatch_deltas_not_zero_sum:
  "map h_change (history (snd (finishMatch stateOneMatch noSwap 7 20 (JNumber 1))))
     = [-19184, -19184, -19200, -19200]
   \<and> sum_list (map h_change (history (snd (finishMatch stateOneMatch noSwap 7 20 (JNumber 1)))))
     = -76768"
  by (simp add: stateOneMatch_def finish_eval)

text \<open>The schema accepts the numbers from 1 to 2; a body it refuses changes nothing.\<close>

lemma finishMatch_rejects:
  "parseWinnerTeam body = None \<Longrightarrow> finishMatch d coin now i body = (Inl ZodError, d)"
  by (simp add: finishMatch_def)

lemma parseWinnerTeam_Some:
  "parseWinnerTeam body = Some w \<longleftrightarrow> body = JNumber w \<and> 1 \<le> w \<and> w \<le> 2"
  by (cases body) auto

text \<open>
  C9. A winner outside \<open>{1, 2}\<close> should be refused before anything is written. The schema
  admits every number from 1 to 2: for the winner 3/2 the request is not refused, both
  teams are scored as losers, four ratings are overwritten, four history rows are added,
  and the call answers with the match stored as FINISHED with winner 1.
\<close>

theorem finishMatch_accepts_fractional_winner:
  "parseWinnerTeam (JNumber (3 / 2)) = Some (3 / 2)
   \<and> fst (finishMatch stateOneMatch noSwap 7 20 (JNumber (3 / 2)))
       = Inr \<lparr>m_id = 20, m_sessionId = 10, m_court = 1, m_status = FINISHED,
              m_startedAt = None, m_endedAt = Some 7, m_p1Id = 1, m_p2Id = 2, m_p3Id = 3,
              m_p4Id = 4, m_winnerTeam = Some 1\<rparr>
   \<and> map u_rating (users (snd (finishMatch stateOneMatch noSwap 7 20 (JNumber (3 / 2)))))
       = [-18000, -18000, -18000, -18000]
   \<and> length (history (snd (finishMatch stateOneMatch noSwap 7 20 (JNumber (3 / 2))))) = 4
   \<and> map h_change (history (snd (finishMatch stateOneMatch noSwap 7 20 (JNumber (3 / 2)))))
       = [-19200, -19200, -19200, -19200]
   \<and> map m_status (matches (snd (finishMatch stateOneMatch noSwap 7 20 (JNumber (3 / 2))))) = [FINISHED]
   \<and> map m_winnerTeam (matches (snd (finishMatch stateOneMatch noSwap 7 20 (JNumber (3 / 2))))) = [Some 1]"
  by (simp add: stateOneMatch_def finish_eval)

section \<open>Queries of the scheduler\<close>

lemma includeUsers_length: "includeUsers d qs = Some us \<Longrightarrow> length us = length qs"
  by (induction qs arbitrary: us) (auto split: option.splits)

lemma includeUsers_exist:
  "(\<forall>q \<in> set qs. findUser d (q_userId q) \<noteq> None) \<Longrightarrow> includeUsers d qs \<noteq> None"
  by (induction qs) (auto split: option.splits)

lemma set_sessionQueue: "set (sessionQueue d sid) = {q \<in> set (waitingQueue d). q_sessionId q = sid}"
  by (auto simp: sessionQueue_def)

lemma length_sessionQueue:
  "length (sessionQueue d sid) = length (filter (\<lambda>q. q_sessionId q = sid) (waitingQueue d))"
  by (simp add: sessionQueue_def)

lemma includeUsers_sessionQueue:
  "queueUsersExist d \<Longrightarrow> includeUsers d (sessionQueue d sid) \<noteq> None"
  by (rule includeUsers_exist) (simp add: set_sessionQueue queueUsersExist_def)

text \<open>
  C7. On an existing session where no court is free, or where fewer than four players
  wait (their user rows being there, as the foreign key demands), the scheduler answers
  with the empty list and changes nothing: the queue and every other table stay as they
  were.
\<close>

theorem generate_nothing_to_do:
  assumes "findSession d sid = Some s"
    and "availableCourts d s = 0
         \<or> (length (filter (\<lambda>q. q_sessionId q = sid) (waitingQueue d)) < 4 \<and> queueUsersExist d)"
  shows "generateUpcomingMatches d coin sid = (Inr [], d)"
proof -
  have sid: "s_id s = sid"
    using assms(1) by (auto simp: findSession_def dest: find_Some_iff[THEN iffD1])
  show ?thesis
  proof (cases "availableCourts d s \<le> 0")
    case True
    then show ?thesis
      using assms(1) sid by (simp add: generateUpcomingMatches_def availableCourts_def Let_def)
  next
    case False
    then have few: "length (filter (\<lambda>q. q_sessionId q = sid) (waitingQueue d)) < 4"
      and fk: "queueUsersExist d"
      using assms(2) by auto
    obtain us where us: "includeUsers d (sessionQueue d sid) = Some us"
      using includeUsers_sessionQueue [OF fk, of sid] by auto
    have "length us < 4"
      using includeUsers_length [OF us] few by (simp add: length_sessionQueue)
    then have "genLoop coin sid (activeCourts d sid) (availableCourts d s) 0 0 (sort_key u_rating us)
        (skipUsed (activeCourts d sid) 1) [] d = ([], d)"
      by (simp add: genLoop.simps)
    then show ?thesis
      using assms(1) sid False us
      by (simp add: generateUpcomingMatches_def availableCourts_def Let_def)
  qed
qed


theorem generate_nothing_to_do_witness:
  "findSession stateWaiting 11 = Some \<lparr>s_id = 11, s_courts = 1, s_isActive = True\<rparr>
   \<and> length (filter (\<lambda>q. q_sessionId q = 11) (waitingQueue stateWaiting)) < 4
   \<and> queueUsersExist stateWaiting
   \<and> generateUpcomingMatches stateWaiting swapFirst 11 = (Inr [], stateWaiting)
   \<and> findSession stateFull 10 = Some \<lparr>s_id = 10, s_courts = 1, s_isActive = True\<rparr>
   \<and> availableCourts stateFull \<lparr>s_id = 10, s_courts = 1, s_isActive = True\<rparr> = 0
   \<and> length (filter (\<lambda>q. q_sessionId q = 10) (waitingQueue stateFull)) = 4
   \<and> generateUpcomingMatches stateFull swapFirst 10 = (Inr [], stateFull)"
proof -
  have a: "findSession stateWaiting 11 = Some \<lparr>s_id = 11, s_courts = 1, s_isActive = True\<rparr>"
    by (simp add: stateWaiting_def findSession_def)
  have b: "length (filter (\<lambda>q. q_sessionId q = 11) (waitingQueue stateWaiting)) < 4"
    by (simp add: stateWaiting_def)
  have c: "queueUsersExist stateWaiting"
    by (simp add: stateWaiting_def queueUsersExist_def findUser_def)
  have e: "findSession stateFull 10 = Some \<lparr>s_id = 10, s_courts = 1, s_isActive = True\<rparr>"
    by (simp add: stateFull_def stateCourtReused_def findSession_def)
  have f: "availableCourts stateFull \<lparr>s_id = 10, s_courts = 1, s_isActive = True\<rparr> = 0"
    by (simp add: stateFull_def stateCourtReused_def availableCourts_def activeMatch_def)
  have g: "length (filter (\<lambda>q. q_sessionId q = 10) (waitingQueue stateFull)) = 4"
    by (simp add: stateFull_def stateCourtReused_def)
  show ?thesis
    using a b c e f g generate_nothing_to_do [of stateWaiting 11 _ swapFirst, OF a]
      generate_nothing_to_do [of stateFull 10 _ swapFirst, OF e]
    by simp
qed

section \<open>Joining the queue\<close>

lemma find_None_filter: "find P xs = None \<longleftrightarrow> filter P xs = []"
  by (induction xs) auto

lemma find_Some_filter: "find P xs = Some x \<Longrightarrow> filter P xs \<noteq> []"
  by (induction xs) (auto split: if_splits)

lemma find_snoc: "find P xs = None \<Longrightarrow> P e \<Longrightarrow> find P (xs @ [e]) = Some e"
  by (induction xs) (auto split: if_splits)

text \<open>
  C8. For an active session and a player with a user row, with at most one row for the
  pair in the queue (the unique index), joining twice succeeds both times, the second call
  returns the entry of the first and leaves the state of the first call as it is, and
  exactly one row of the pair is in the queue.
\<close>

theorem joinQueue_idempotent:
  assumes "findSession d sid = Some s" and "s_isActive s"
    and "findUser d uid = Some u"
    and "entriesOf d sid uid \<le> 1"
  shows "\<not> isl (fst (joinQueue d t1 sid uid))
     \<and> fst (joinQueue (snd (joinQueue d t1 sid uid)) t2 sid uid) = fst (joinQueue d t1 sid uid)
     \<and> snd (joinQueue (snd (joinQueue d t1 sid uid)) t2 sid uid) = snd (joinQueue d t1 sid uid)
     \<and> entriesOf (snd (joinQueue (snd (joinQueue d t1 sid uid)) t2 sid uid)) sid uid = 1"
proof (cases "find (\<lambda>q. q_sessionId q = sid \<and> q_userId q = uid) (waitingQueue d)")
  case None
  let ?e = "\<lparr>q_id = nextId d, q_sessionId = sid, q_userId = uid,
      q_position = (if map q_position (filter (\<lambda>q. q_sessionId q = sid) (waitingQueue d)) = [] then 0
         else Max (set (map q_position (filter (\<lambda>q. q_sessionId q = sid) (waitingQueue d))))) + 1,
      q_joinedAt = t1\<rparr>"
  let ?d' = "d\<lparr>waitingQueue := waitingQueue d @ [?e], nextId := nextId d + 1\<rparr>"
  have first: "joinQueue d t1 sid uid = (Inr ?e, ?d')"
    using assms None by (simp add: joinQueue_def Let_def)
  have found: "find (\<lambda>q. q_sessionId q = sid \<and> q_userId q = uid) (waitingQueue ?d') = Some ?e"
    using None by (simp add: find_snoc)
  have sess: "findSession ?d' sid = Some s"
    using assms(1) by (simp add: findSession_def)
  have second: "joinQueue ?d' t2 sid uid = (Inr ?e, ?d')"
    using sess assms(2) found by (simp add: joinQueue_def Let_def del: db.simps)
  have "filter (\<lambda>q. q_sessionId q = sid \<and> q_userId q = uid) (waitingQueue d) = []"
    using None by (simp add: find_None_filter)
  then have "entriesOf ?d' sid uid = 1"
    by (simp add: entriesOf_def)
  then show ?thesis
    using first second by simp
next
  case (Some e)
  have first: "joinQueue d t1 sid uid = (Inr e, d)"
    using assms Some by (simp add: joinQueue_def Let_def)
  have second: "joinQueue d t2 sid uid = (Inr e, d)"
    using assms Some by (simp add: joinQueue_def Let_def)
  have "entriesOf d sid uid \<noteq> 0"
    using find_Some_filter [OF Some] by (simp add: entriesOf_def)
  then have "entriesOf d sid uid = 1"
    using assms(4) by simp
  then show ?thesis
    using first second by simp
qed

theorem joinQueue_idempotent_witness:
  "findSession stateWaiting 11 = Some \<lparr>s_id = 11, s_courts = 1, s_isActive = True\<rparr>
   \<and> findUser stateWaiting 3 = Some \<lparr>u_id = 3, u_rating = 1250\<rparr>
   \<and> entriesOf stateWaiting 11 3 \<le> 1
   \<and> \<not> isl (fst (joinQueue stateWaiting 6 11 3))
   \<and> fst (joinQueue (snd (joinQueue stateWaiting 6 11 3)) 8 11 3) = fst (joinQueue stateWaiting 6 11 3)
   \<and> snd (joinQueue (snd (joinQueue stateWaiting 6 11 3)) 8 11 3) = snd (joinQueue stateWaiting 6 11 3)
   \<and> entriesOf (snd (joinQueue (snd (joinQueue stateWaiting 6 11 3)) 8 11 3)) 11 3 = 1"
proof -
  have a: "findSession stateWaiting 11 = Some \<lparr>s_id = 11, s_courts = 1, s_isActive = True\<rparr>"
    by (simp add: stateWaiting_def findSession_def)
  have b: "findUser stateWaiting 3 = Some \<lparr>u_id = 3, u_rating = 1250\<rparr>"
    by (simp add: stateWaiting_def findUser_def)
  have c: "entriesOf stateWaiting 11 3 \<le> 1"
    by (simp add: stateWaiting_def entriesOf_def)
  have act: "s_isActive \<lparr>s_id = 11, s_courts = 1, s_isActive = True\<rparr>"
    by simp
  show ?thesis
    using a b c joinQueue_idempotent [OF a act b c, of 6 8] by blast
qed

section \<open>Starting a match\<close>

lemma find_updateFirst:
  "find P xs = Some x \<Longrightarrow> P (f x) \<Longrightarrow> find P (updateFirst P f xs) = Some (f x)"
  by (induction xs) (auto split: if_splits)

text \<open>
  C4, as stated: a start on a match that is not SCHEDULED should fail and leave the match
  unchanged. The handler has no check of the current status: a FINISHED match is started
  again, the call succeeds, and the row is ONGOING with a new start time.
\<close>

theorem startMatch_restarts_finished:
  "map m_status (matches stateFinished) = [FINISHED]
   \<and> \<not> isl (fst (startMatch stateFinished 9 20))
   \<and> map m_status (matches (snd (startMatch stateFinished 9 20))) = [ONGOING]
   \<and> map m_startedAt (matches (snd (startMatch stateFinished 9 20))) = [Some 9]"
  by (simp add: stateFinished_def stateOneMatch_def startMatch_def findMatch_def)

text \<open>
  C4, amended. On every existing match, whatever its status, the call succeeds and answers
  with the row set to ONGOING and stamped with the time of the call; that row is then the
  one stored under the identifier, and no other table changes.
\<close>

theorem startMatch_any_status:
  assumes "findMatch d i = Some m"
  shows "fst (startMatch d now i) = Inr (m\<lparr>m_status := ONGOING, m_startedAt := Some now\<rparr>)
     \<and> findMatch (snd (startMatch d now i)) i = Some (m\<lparr>m_status := ONGOING, m_startedAt := Some now\<rparr>)
     \<and> (snd (startMatch d now i))\<lparr>matches := matches d\<rparr> = d"
proof -
  have "m_id m = i"
    using assms by (auto simp: findMatch_def dest: find_Some_iff[THEN iffD1])
  then have "find (\<lambda>x. m_id x = i)
      (updateFirst (\<lambda>x. m_id x = i) (\<lambda>x. x\<lparr>m_status := ONGOING, m_startedAt := Some now\<rparr>) (matches d))
      = Some (m\<lparr>m_status := ONGOING, m_startedAt := Some now\<rparr>)"
    using assms by (intro find_updateFirst) (simp_all add: findMatch_def)
  then show ?thesis
    using assms by (simp add: startMatch_def findMatch_def)
qed

theorem startMatch_any_status_witness:
  "findMatch stateFinished 20 = Some (hd (matches stateFinished))
   \<and> m_status (hd (matches stateFinished)) = FINISHED
   \<and> fst (startMatch stateFinished 9 20)
       = Inr ((hd (matches stateFinished))\<lparr>m_status := ONGOING, m_startedAt := Some 9\<rparr>)
   \<and> findMatch (snd (startMatch stateFinished 9 20)) 20
       = Some ((hd (matches stateFinished))\<lparr>m_status := ONGOING, m_startedAt := Some 9\<rparr>)
   \<and> (snd (startMatch stateFinished 9 20))\<lparr>matches := matches stateFinished\<rparr> = stateFinished"
proof -
  have a: "findMatch stateFinished 20 = Some (hd (matches stateFinished))"
    by (simp add: stateFinished_def stateOneMatch_def findMatch_def)
  have b: "m_status (hd (matches stateFinished)) = FINISHED"
    by (simp add: stateFinished_def stateOneMatch_def)
  show ?thesis
    using a b startMatch_any_status [OF a, of 9] by blast
qed

section \<open>The scheduler loop\<close>

lemma genLoop_stop:
  "\<not> (i + 3 < length players \<and> int (length created) < avail) \<Longrightarrow>
   genLoop coin sid used avail n i players court created d = (created, d)"
  by (subst genLoop.simps) auto

lemma genLoop_step:
  "i + 3 < length players \<Longrightarrow> int (length created) < avail \<Longrightarrow>
   genLoop coin sid used avail n i players court created d =
   genLoop coin sid used avail (n + 1) (i + 4) (maybeSwap (coin n) i players)
     (skipUsed used (court + 1))
     (created @ [newMatch d sid court (slice i (i + 4) (maybeSwap (coin n) i players))])
     (deleteQueued sid (slice i (i + 4) (maybeSwap (coin n) i players))
        (createMatch (newMatch d sid court (slice i (i + 4) (maybeSwap (coin n) i players))) d))"
  by (subst genLoop.simps) (simp add: Let_def)

lemma genLoop_induct [case_names stop step]:
  fixes coin :: "nat \<Rightarrow> bool" and avail :: int and used :: "int list" and sid :: ident
    and P :: "nat \<Rightarrow> nat \<Rightarrow> User list \<Rightarrow> int \<Rightarrow> Match list \<Rightarrow> db \<Rightarrow> bool"
  assumes stop: "\<And>n i players court created d.
      \<not> (i + 3 < length players \<and> int (length created) < avail) \<Longrightarrow> P n i players court created d"
    and step: "\<And>n i players court created d.
      i + 3 < length players \<Longrightarrow> int (length created) < avail \<Longrightarrow>
      P (n + 1) (i + 4) (maybeSwap (coin n) i players) (skipUsed used (court + 1))
        (created @ [newMatch d sid court (slice i (i + 4) (maybeSwap (coin n) i players))])
        (deleteQueued sid (slice i (i + 4) (maybeSwap (coin n) i players))
           (createMatch (newMatch d sid court (slice i (i + 4) (maybeSwap (coin n) i players))) d))
      \<Longrightarrow> P n i players court created d"
  shows "P n i players court created d"
proof -
  have "\<forall>n i players court created d. length players - i = k \<longrightarrow> P n i players court created d" for k
  proof (induction k rule: less_induct)
    case (less k)
    show ?case
    proof (intro allI impI)
      fix n i :: nat and players :: "User list" and court :: int and created :: "Match list" and d :: db
      assume k: "length players - i = k"
      show "P n i players court created d"
      proof (cases "i + 3 < length players \<and> int (length created) < avail")
        case True
        then have g1: "i + 3 < length players" and g2: "int (length created) < avail"
          by simp_all
        have "length (maybeSwap (coin n) i players) - (i + 4) < k"
          using g1 k by (auto simp add: maybeSwap_def)
        then have ih: "P (n + 1) (i + 4) (maybeSwap (coin n) i players) (skipUsed used (court + 1))
            (created @ [newMatch d sid court (slice i (i + 4) (maybeSwap (coin n) i players))])
            (deleteQueued sid (slice i (i + 4) (maybeSwap (coin n) i players))
               (createMatch (newMatch d sid court (slice i (i + 4) (maybeSwap (coin n) i players))) d))"
          using less.IH by blast
        show ?thesis
          by (rule step [OF g1 g2 ih])
      next
        case False
        then show ?thesis by (rule stop)
      qed
    qed
  qed
  then show ?thesis by blast
qed


lemma genLoop_matches:
  "\<exists>news. fst (genLoop coin sid used avail n i players court created d) = created @ news
     \<and> matches (snd (genLoop coin sid used avail n i players court created d)) = matches d @ news"
proof (induction n i players court created d rule: genLoop_induct [where avail = avail and coin = coin and used = used and sid = sid])
  case stop
  then show ?case by (simp add: genLoop_stop)
next
  case (step n i players court created d)
  let ?m = "newMatch d sid court (slice i (i + 4) (maybeSwap (coin n) i players))"
  let ?d = "deleteQueued sid (slice i (i + 4) (maybeSwap (coin n) i players)) (createMatch ?m d)"
  from step(3) obtain news where
    a: "fst (genLoop coin sid used avail (n + 1) (i + 4) (maybeSwap (coin n) i players)
          (skipUsed used (court + 1)) (created @ [?m]) ?d) = (created @ [?m]) @ news"
    and b: "matches (snd (genLoop coin sid used avail (n + 1) (i + 4) (maybeSwap (coin n) i players)
          (skipUsed used (court + 1)) (created @ [?m]) ?d)) = matches ?d @ news"
    by blast
  have c: "matches ?d = matches d @ [?m]"
    by (simp add: deleteQueued_def createMatch_def)
  show ?case
    unfolding genLoop_step [OF step(1,2)] a b c
    by (intro exI [of _ "?m # news"]) simp
qed


section \<open>What the scheduler leaves alone\<close>


lemma generate_matches:
  "\<exists>news. matches (snd (generateUpcomingMatches d coin sid)) = matches d @ news
     \<and> (\<forall>ms. fst (generateUpcomingMatches d coin sid) = Inr ms \<longrightarrow> ms = news)"
proof (cases "\<exists>s us. findSession d sid = Some s \<and> \<not> max 0 (s_courts s - int (length (filter (activeMatch sid) (matches d)))) \<le> 0
    \<and> includeUsers d (sessionQueue d sid) = Some us")
  case True
  then obtain s us where s: "findSession d sid = Some s"
    and a: "\<not> max 0 (s_courts s - int (length (filter (activeMatch sid) (matches d)))) \<le> 0"
    and us: "includeUsers d (sessionQueue d sid) = Some us"
    by blast
  obtain news where
    "fst (genLoop coin sid (activeCourts d sid)
       (max 0 (s_courts s - int (length (filter (activeMatch sid) (matches d))))) 0 0
       (sort_key u_rating us) (skipUsed (activeCourts d sid) 1) [] d) = [] @ news"
    "matches (snd (genLoop coin sid (activeCourts d sid)
       (max 0 (s_courts s - int (length (filter (activeMatch sid) (matches d))))) 0 0
       (sort_key u_rating us) (skipUsed (activeCourts d sid) 1) [] d)) = matches d @ news"
    using genLoop_matches by blast
  then show ?thesis
    using s a us by (simp add: generateUpcomingMatches_def Let_def)
next
  case False
  then have "snd (generateUpcomingMatches d coin sid) = d
      \<and> (\<forall>ms. fst (generateUpcomingMatches d coin sid) = Inr ms \<longrightarrow> ms = [])"
    by (auto simp add: generateUpcomingMatches_def Let_def split: option.splits)
  then show ?thesis by simp
qed







section \<open>Finishing a match\<close>



lemma recordResult_frame:
  "sessions (recordResult d i m p1 p2 p3 p4 w) = sessions d
   \<and> matches (recordResult d i m p1 p2 p3 p4 w) = matches d
   \<and> waitingQueue (recordResult d i m p1 p2 p3 p4 w) = waitingQueue d"
  by (simp add: recordResult_def Let_def setRating_def)





section \<open>Grouping of the waiting players\<close>

lemma length_maybeSwap: "length (maybeSwap c i players) = length players"
  by (simp add: maybeSwap_def)

lemma drop_maybeSwap:
  "drop i (maybeSwap c i players) =
     (if c \<and> 4 < length (drop i players)
      then (drop i players)[3 := drop i players ! 4, 4 := drop i players ! 3]
      else drop i players)"
  by (auto simp add: maybeSwap_def drop_update_swap add.commute)

lemma specGroups_stop:
  "\<not> (i + 3 < length players \<and> int (length created) < avail) \<Longrightarrow>
   specGroups coin n (nat (avail - int (length created))) (drop i players) = []"
  by (cases "nat (avail - int (length created))") auto

lemma specGroups_step:
  assumes "i + 3 < length players" and "int (length created) < avail"
  shows "specGroups coin n (nat (avail - int (length created))) (drop i players) =
     slice i (i + 4) (maybeSwap (coin n) i players)
       # specGroups coin (n + 1) (nat (avail - int (length (created @ [m]))))
           (drop (i + 4) (maybeSwap (coin n) i players))"
proof -
  have k: "nat (avail - int (length created)) = Suc (nat (avail - int (length (created @ [m]))))"
    using assms(2) by simp
  have l: "\<not> length (drop i players) < 4"
    using assms(1) by simp
  have d: "drop (i + 4) (maybeSwap (coin n) i players) = drop 4 (drop i (maybeSwap (coin n) i players))"
    by (simp add: add.commute)
  show ?thesis
    unfolding k d slice_def drop_maybeSwap
    using l by (simp add: Let_def)
qed


lemma length_slice4: "i + 3 < length players \<Longrightarrow> length (slice i (i + 4) players) = 4"
  by (simp add: slice_def)

lemma list4: "length g = 4 \<Longrightarrow> g = [g ! 0, g ! 1, g ! 2, g ! 3]"
  by (auto simp add: list_eq_iff_nth_eq less_Suc_eq numeral_nat nth_Cons')

lemma newMatch_teams:
  assumes "length g = 4"
  shows "team1 (newMatch d sid court g) = map u_id (take 2 g)"
    and "team2 (newMatch d sid court g) = map u_id (drop 2 g)"
proof -
  have "g = [g ! 0, g ! 1, g ! 2, g ! 3]"
    using assms by (rule list4)
  then obtain a b c e where "g = [a, b, c, e]"
    by blast
  then show "team1 (newMatch d sid court g) = map u_id (take 2 g)"
    and "team2 (newMatch d sid court g) = map u_id (drop 2 g)"
    by (simp_all add: team1_def team2_def newMatch_def)
qed

lemma genLoop_groups:
  "\<exists>news. fst (genLoop coin sid used avail n i players court created d) = created @ news
     \<and> matches (snd (genLoop coin sid used avail n i players court created d)) = matches d @ news
     \<and> map (\<lambda>m. (team1 m, team2 m)) news
         = map (\<lambda>g. (map u_id (take 2 g), map u_id (drop 2 g)))
             (specGroups coin n (nat (avail - int (length created))) (drop i players))
     \<and> (\<forall>m \<in> set news. m_status m = SCHEDULED \<and> m_sessionId m = sid)
     \<and> waitingQueue (snd (genLoop coin sid used avail n i players court created d))
         = filter (\<lambda>q. \<not> (q_sessionId q = sid \<and> q_userId q \<in> u_id `
               (\<Union>g \<in> set (specGroups coin n (nat (avail - int (length created))) (drop i players)). set g)))
             (waitingQueue d)"
proof (induction n i players court created d rule: genLoop_induct [where avail = avail and coin = coin and used = used and sid = sid])
  case (stop n i players court created d)
  then show ?case
    by (simp add: genLoop_stop specGroups_stop)
next
  case (step n i players court created d)
  let ?g = "slice i (i + 4) (maybeSwap (coin n) i players)"
  let ?m = "newMatch d sid court ?g"
  let ?d = "deleteQueued sid ?g (createMatch ?m d)"
  let ?rest = "specGroups coin (n + 1) (nat (avail - int (length (created @ [?m]))))
      (drop (i + 4) (maybeSwap (coin n) i players))"
  let ?r = "genLoop coin sid used avail (n + 1) (i + 4) (maybeSwap (coin n) i players)
      (skipUsed used (court + 1)) (created @ [?m]) ?d"
  from step(3) obtain news where
    a: "fst ?r = (created @ [?m]) @ news"
    and b: "matches (snd ?r) = matches ?d @ news"
    and c: "map (\<lambda>m. (team1 m, team2 m)) news
         = map (\<lambda>g. (map u_id (take 2 g), map u_id (drop 2 g))) ?rest"
    and e: "\<forall>m \<in> set news. m_status m = SCHEDULED \<and> m_sessionId m = sid"
    and f: "waitingQueue (snd ?r)
         = filter (\<lambda>q. \<not> (q_sessionId q = sid \<and> q_userId q \<in> u_id ` (\<Union>g \<in> set ?rest. set g)))
             (waitingQueue ?d)"
    by blast
  have len: "length ?g = 4"
    using step(1) by (simp add: length_slice4 length_maybeSwap)
  have md: "matches ?d = matches d @ [?m]"
    by (simp add: deleteQueued_def createMatch_def)
  have qd: "waitingQueue ?d
      = filter (\<lambda>q. \<not> (q_sessionId q = sid \<and> q_userId q \<in> u_id ` set ?g)) (waitingQueue d)"
    by (simp add: deleteQueued_def createMatch_def)
  have sg: "specGroups coin n (nat (avail - int (length created))) (drop i players) = ?g # ?rest"
    using step(1,2) by (rule specGroups_step)
  have st: "m_status ?m = SCHEDULED \<and> m_sessionId ?m = sid"
    by (simp add: newMatch_def)
  have q: "waitingQueue (snd ?r)
      = filter (\<lambda>q. \<not> (q_sessionId q = sid \<and> q_userId q \<in> u_id ` (\<Union>g \<in> set (?g # ?rest). set g)))
          (waitingQueue d)"
    unfolding f qd filter_filter by (rule filter_cong) auto
  have "fst ?r = created @ (?m # news)"
    using a by simp
  moreover have "matches (snd ?r) = matches d @ (?m # news)"
    using b md by simp
  moreover have "map (\<lambda>m. (team1 m, team2 m)) (?m # news)
      = map (\<lambda>g. (map u_id (take 2 g), map u_id (drop 2 g))) (?g # ?rest)"
    using c newMatch_teams [OF len] by simp
  moreover have "\<forall>m \<in> set (?m # news). m_status m = SCHEDULED \<and> m_sessionId m = sid"
    using e st by simp
  ultimately show ?case
    unfolding genLoop_step [OF step(1,2)] sg
    using q by blast
qed


lemma findSession_id: "findSession d sid = Some s \<Longrightarrow> s_id s = sid"
  by (auto simp: findSession_def dest: find_Some_iff[THEN iffD1])

lemma generate_created:
  assumes s: "findSession d sid = Some s" and us: "includeUsers d (sessionQueue d sid) = Some us"
  shows "\<exists>created. fst (generateUpcomingMatches d coin sid) = Inr created
     \<and> matches (snd (generateUpcomingMatches d coin sid)) = matches d @ created
     \<and> map (\<lambda>m. (team1 m, team2 m)) created
         = map (\<lambda>g. (map u_id (take 2 g), map u_id (drop 2 g)))
             (specGroups coin 0 (nat (availableCourts d s)) (sort_key u_rating us))
     \<and> (\<forall>m \<in> set created. m_status m = SCHEDULED \<and> m_sessionId m = sid)
     \<and> waitingQueue (snd (generateUpcomingMatches d coin sid))
         = filter (\<lambda>q. \<not> (q_sessionId q = sid \<and> q_userId q \<in> u_id `
               (\<Union>g \<in> set (specGroups coin 0 (nat (availableCourts d s)) (sort_key u_rating us)). set g)))
             (waitingQueue d)"
proof (cases "availableCourts d s \<le> 0")
  case True
  then have "generateUpcomingMatches d coin sid = (Inr [], d)"
    using s findSession_id [OF s]
    by (simp add: generateUpcomingMatches_def availableCourts_def Let_def)
  moreover have "nat (availableCourts d s) = 0"
    using True by simp
  ultimately show ?thesis
    by simp
next
  case False
  let ?r = "genLoop coin sid (activeCourts d sid) (availableCourts d s) 0 0 (sort_key u_rating us)
      (skipUsed (activeCourts d sid) 1) [] d"
  have g: "generateUpcomingMatches d coin sid = (Inr (fst ?r), snd ?r)"
    using s us False findSession_id [OF s]
    by (simp add: generateUpcomingMatches_def availableCourts_def Let_def)
  show ?thesis
    unfolding g
    using genLoop_groups [of coin sid "activeCourts d sid" "availableCourts d s" 0 0
        "sort_key u_rating us" "skipUsed (activeCourts d sid) 1" "[]" d]
    by simp
qed

text \<open>
  C6. On an existing session, with \<open>us\<close> the waiting players in queue order: the players
  are sorted by rating ascending; the teams of the created matches are, in order, the
  first two and the last two players of the groups of four that the specification
  describes (consecutive groups of the sorted list, the fourth player exchanged with the
  fifth when the draw says so and a fifth exists, as many groups as courts are free);
  every created match is SCHEDULED in this session and is appended to the match table; and
  the queue afterwards is the queue before without the entries, in this session, of the
  players of those groups.
\<close>

theorem generate_groups_by_rating:
  assumes "findSession d sid = Some s" and "includeUsers d (sessionQueue d sid) = Some us"
  shows "sorted (map u_rating (sort_key u_rating us))
     \<and> (\<exists>created. fst (generateUpcomingMatches d coin sid) = Inr created
     \<and> matches (snd (generateUpcomingMatches d coin sid)) = matches d @ created
     \<and> map (\<lambda>m. (team1 m, team2 m)) created
         = map (\<lambda>g. (map u_id (take 2 g), map u_id (drop 2 g)))
             (specGroups coin 0 (nat (availableCourts d s)) (sort_key u_rating us))
     \<and> (\<forall>m \<in> set created. m_status m = SCHEDULED \<and> m_sessionId m = sid)
     \<and> waitingQueue (snd (generateUpcomingMatches d coin sid))
         = filter (\<lambda>q. \<not> (q_sessionId q = sid \<and> q_userId q \<in> u_id `
               (\<Union>g \<in> set (specGroups coin 0 (nat (availableCourts d s)) (sort_key u_rating us)). set g)))
             (waitingQueue d))"
  using generate_created [OF assms, of coin] by simp

lemmas waiting_eval =
  stateWaiting_def findSession_def findUser_def sessionQueue_def availableCourts_def
  activeMatch_def swapFirst_def

theorem generate_groups_by_rating_witness:
  "findSession stateWaiting 10 = Some \<lparr>s_id = 10, s_courts = 2, s_isActive = False\<rparr>
   \<and> includeUsers stateWaiting (sessionQueue stateWaiting 10)
       = Some [\<lparr>u_id = 1, u_rating = 1300\<rparr>, \<lparr>u_id = 2, u_rating = 1100\<rparr>,
               \<lparr>u_id = 3, u_rating = 1250\<rparr>, \<lparr>u_id = 4, u_rating = 1000\<rparr>,
               \<lparr>u_id = 5, u_rating = 1200\<rparr>]
   \<and> (\<exists>created. fst (generateUpcomingMatches stateWaiting swapFirst 10) = Inr created
        \<and> map (\<lambda>m. (team1 m, team2 m)) created = [([4, 2], [5, 1])]
        \<and> (\<forall>m \<in> set created. m_status m = SCHEDULED \<and> m_sessionId m = 10)
        \<and> map q_userId (waitingQueue (snd (generateUpcomingMatches stateWaiting swapFirst 10))) = [3])"
proof -
  let ?us = "[\<lparr>u_id = 1, u_rating = 1300\<rparr>, \<lparr>u_id = 2, u_rating = 1100\<rparr>,
               \<lparr>u_id = 3, u_rating = 1250\<rparr>, \<lparr>u_id = 4, u_rating = 1000\<rparr>,
               \<lparr>u_id = 5, u_rating = 1200::real\<rparr>]"
  have a: "findSession stateWaiting 10 = Some \<lparr>s_id = 10, s_courts = 2, s_isActive = False\<rparr>"
    by (simp add: waiting_eval)
  have b: "includeUsers stateWaiting (sessionQueue stateWaiting 10) = Some ?us"
    by (simp add: waiting_eval)
  have c: "nat (availableCourts stateWaiting \<lparr>s_id = 10, s_courts = 2, s_isActive = False\<rparr>) = Suc 0"
    by (simp add: waiting_eval)
  have e: "specGroups swapFirst 0 (Suc 0) (sort_key u_rating ?us)
      = [[\<lparr>u_id = 4, u_rating = 1000\<rparr>, \<lparr>u_id = 2, u_rating = 1100\<rparr>,
          \<lparr>u_id = 5, u_rating = 1200\<rparr>, \<lparr>u_id = 1, u_rating = 1300\<rparr>]]"
    by (simp add: swapFirst_def)
  show ?thesis
    using a b generate_groups_by_rating [OF a b, of swapFirst]
    unfolding c e
    by (auto simp add: stateWaiting_def)
qed


section \<open>The active flag\<close>

lemma find_map_key:
  "(\<And>x. P (f x) = P x) \<Longrightarrow> find P (map f xs) = map_option f (find P xs)"
  by (induction xs) auto

lemma findSession_setFlags:
  "findSession (setFlags b d) sid = map_option (\<lambda>s. s\<lparr>s_isActive := b s\<rparr>) (findSession d sid)"
  by (simp add: findSession_def setFlags_def find_map_key)

lemma findUser_setFlags: "findUser (setFlags b d) j = findUser d j"
  by (simp add: findUser_def setFlags_def)

lemma includeUsers_setFlags: "includeUsers (setFlags b d) qs = includeUsers d qs"
  by (induction qs) (simp_all add: findUser_setFlags split: option.splits)

lemma genLoop_setFlags:
  "genLoop coin sid used avail n i players court created (setFlags b d)
     = (fst (genLoop coin sid used avail n i players court created d),
        setFlags b (snd (genLoop coin sid used avail n i players court created d)))"
proof (induction n i players court created d rule: genLoop_induct [where avail = avail and coin = coin and used = used and sid = sid])
  case (stop n i players court created d)
  then show ?case by (simp add: genLoop_stop)
next
  case (step n i players court created d)
  let ?g = "slice i (i + 4) (maybeSwap (coin n) i players)"
  have m: "newMatch (setFlags b d) sid court ?g = newMatch d sid court ?g"
    by (simp add: newMatch_def setFlags_def)
  have d: "deleteQueued sid ?g (createMatch (newMatch d sid court ?g) (setFlags b d))
      = setFlags b (deleteQueued sid ?g (createMatch (newMatch d sid court ?g) d))"
    by (simp add: deleteQueued_def createMatch_def setFlags_def)
  show ?case
    unfolding genLoop_step [OF step(1,2)] m d
    by (rule step(3))
qed

lemma generate_setFlags:
  "generateUpcomingMatches (setFlags b d) coin sid
     = (fst (generateUpcomingMatches d coin sid), setFlags b (snd (generateUpcomingMatches d coin sid)))"
proof -
  have f: "matches (setFlags b d) = matches d" "activeCourts (setFlags b d) sid = activeCourts d sid"
    "sessionQueue (setFlags b d) sid = sessionQueue d sid"
    by (simp_all add: setFlags_def activeCourts_def sessionQueue_def)
  show ?thesis
    by (simp add: generateUpcomingMatches_def findSession_setFlags f includeUsers_setFlags
        genLoop_setFlags Let_def split: option.splits)
qed


lemma specGroups_nonempty: "0 < k \<Longrightarrow> 4 \<le> length ps \<Longrightarrow> specGroups coin n k ps \<noteq> []"
  by (cases k) (auto simp add: Let_def)

text \<open>
  C10. The scheduler rejects an unknown session identifier and nothing else: its result is
  the same whatever the active flags of the sessions are set to, and on an inactive
  session with a free court and at least four waiting players (with their user rows) it
  creates at least one SCHEDULED match. Joining the queue of an inactive session is
  refused as an invalid session.
\<close>

theorem generate_ignores_active_flag:
  "(findSession d sid = None \<longrightarrow> generateUpcomingMatches d coin sid = (Inl SessionNotFound, d))
   \<and> generateUpcomingMatches (setFlags b d) coin sid
       = (fst (generateUpcomingMatches d coin sid), setFlags b (snd (generateUpcomingMatches d coin sid)))
   \<and> (findSession d sid = Some s \<and> \<not> s_isActive s \<and> 0 < availableCourts d s \<and> queueUsersExist d
        \<and> 4 \<le> length (filter (\<lambda>q. q_sessionId q = sid) (waitingQueue d))
      \<longrightarrow> (\<exists>created. fst (generateUpcomingMatches d coin sid) = Inr created \<and> created \<noteq> []
            \<and> matches (snd (generateUpcomingMatches d coin sid)) = matches d @ created
            \<and> (\<forall>m \<in> set created. m_status m = SCHEDULED \<and> m_sessionId m = sid)))
   \<and> (findSession d sid = Some s \<and> \<not> s_isActive s
      \<longrightarrow> joinQueue d now sid uid = (Inl InvalidSession, d))"
proof (intro conjI impI)
  assume "findSession d sid = None"
  then show "generateUpcomingMatches d coin sid = (Inl SessionNotFound, d)"
    by (simp add: generateUpcomingMatches_def)
next
  show "generateUpcomingMatches (setFlags b d) coin sid
       = (fst (generateUpcomingMatches d coin sid), setFlags b (snd (generateUpcomingMatches d coin sid)))"
    by (rule generate_setFlags)
next
  assume a: "findSession d sid = Some s \<and> \<not> s_isActive s \<and> 0 < availableCourts d s \<and> queueUsersExist d
        \<and> 4 \<le> length (filter (\<lambda>q. q_sessionId q = sid) (waitingQueue d))"
  then obtain us where us: "includeUsers d (sessionQueue d sid) = Some us"
    using includeUsers_sessionQueue [of d sid] by auto
  have "4 \<le> length (sort_key u_rating us)"
    using a includeUsers_length [OF us] by (simp add: length_sessionQueue)
  then have ne: "specGroups coin 0 (nat (availableCourts d s)) (sort_key u_rating us) \<noteq> []"
    using a by (intro specGroups_nonempty) simp_all
  from a have s: "findSession d sid = Some s"
    by simp
  obtain created where c: "fst (generateUpcomingMatches d coin sid) = Inr created"
    "matches (snd (generateUpcomingMatches d coin sid)) = matches d @ created"
    "map (\<lambda>m. (team1 m, team2 m)) created
         = map (\<lambda>g. (map u_id (take 2 g), map u_id (drop 2 g)))
             (specGroups coin 0 (nat (availableCourts d s)) (sort_key u_rating us))"
    "\<forall>m \<in> set created. m_status m = SCHEDULED \<and> m_sessionId m = sid"
    using generate_created [OF s us, of coin] by blast
  have "created \<noteq> []"
    using c(3) ne by auto
  then show "\<exists>created. fst (generateUpcomingMatches d coin sid) = Inr created \<and> created \<noteq> []
            \<and> matches (snd (generateUpcomingMatches d coin sid)) = matches d @ created
            \<and> (\<forall>m \<in> set created. m_status m = SCHEDULED \<and> m_sessionId m = sid)"
    using c by blast
next
  assume "findSession d sid = Some s \<and> \<not> s_isActive s"
  then show "joinQueue d now sid uid = (Inl InvalidSession, d)"
    by (simp add: joinQueue_def)
qed

theorem generate_ignores_active_flag_witness:
  "findSession stateWaiting 99 = None
   \<and> generateUpcomingMatches stateWaiting swapFirst 99 = (Inl SessionNotFound, stateWaiting)
   \<and> findSession stateWaiting 10 = Some \<lparr>s_id = 10, s_courts = 2, s_isActive = False\<rparr>
   \<and> 0 < availableCourts stateWaiting \<lparr>s_id = 10, s_courts = 2, s_isActive = False\<rparr>
   \<and> queueUsersExist stateWaiting
   \<and> 4 \<le> length (filter (\<lambda>q. q_sessionId q = 10) (waitingQueue stateWaiting))
   \<and> (\<exists>created. fst (generateUpcomingMatches stateWaiting swapFirst 10) = Inr created \<and> created \<noteq> []
        \<and> matches (snd (generateUpcomingMatches stateWaiting swapFirst 10)) = matches stateWaiting @ created)
   \<and> joinQueue stateWaiting 6 10 3 = (Inl InvalidSession, stateWaiting)"
proof -
  have a: "findSession stateWaiting 99 = None"
    by (simp add: waiting_eval)
  have b: "findSession stateWaiting 10 = Some \<lparr>s_id = 10, s_courts = 2, s_isActive = False\<rparr>"
    by (simp add: waiting_eval)
  have c: "0 < availableCourts stateWaiting \<lparr>s_id = 10, s_courts = 2, s_isActive = False\<rparr>"
    by (simp add: waiting_eval)
  have e: "queueUsersExist stateWaiting"
    by (simp add: stateWaiting_def queueUsersExist_def findUser_def)
  have f: "4 \<le> length (filter (\<lambda>q. q_sessionId q = 10) (waitingQueue stateWaiting))"
    by (simp add: stateWaiting_def)
  have g: "\<not> s_isActive \<lparr>s_id = 10, s_courts = 2, s_isActive = False\<rparr>"
    by simp
  show ?thesis
    using a b c e f g
      generate_ignores_active_flag [of stateWaiting 99 swapFirst "\<lambda>s. True"
        "\<lparr>s_id = 10, s_courts = 2, s_isActive = False\<rparr>" 6 3]
      generate_ignores_active_flag [of stateWaiting 10 swapFirst "\<lambda>s. True"
        "\<lparr>s_id = 10, s_courts = 2, s_isActive = False\<rparr>" 6 3]
    by blast
qed

section \<open>Court numbers\<close>

lemma skipUsed_ge: "c \<le> skipUsed used c"
proof (induction used c rule: skipUsed.induct)
  case (1 used court)
  then show ?case
    by (subst skipUsed.simps) (auto split: if_splits)
qed

lemma skipUsed_free: "skipUsed used c \<notin> set used"
proof (induction used c rule: skipUsed.induct)
  case (1 used court)
  then show ?case
    by (subst skipUsed.simps) (auto split: if_splits)
qed

lemma skipUsed_skipped: "c \<le> c' \<Longrightarrow> c' < skipUsed used c \<Longrightarrow> c' \<in> set used"
proof (induction used c rule: skipUsed.induct)
  case (1 used court)
  show ?case
  proof (cases "court \<in> set used")
    case True
    then have "skipUsed used court = skipUsed used (court + 1)"
      by (subst skipUsed.simps) simp
    then show ?thesis
      using 1 True by (cases "c' = court") auto
  next
    case False
    then have "skipUsed used court = court"
      by (subst skipUsed.simps) simp
    then show ?thesis
      using 1 by simp
  qed
qed

lemma courtInv_start: "courtInv used [] (skipUsed used 1)"
  using skipUsed_ge [of 1 used] skipUsed_free [of used 1] skipUsed_skipped [of 1 _ used]
  by (auto simp add: courtInv_def)

lemma courtInv_next:
  assumes "courtInv used cs court"
  shows "courtInv used (cs @ [court]) (skipUsed used (court + 1))"
proof -
  have ge: "court + 1 \<le> skipUsed used (court + 1)"
    by (rule skipUsed_ge)
  have "c' \<in> set used \<union> set (cs @ [court])" if "1 \<le> c'" "c' < skipUsed used (court + 1)" for c'
  proof (cases "c' < court")
    case True
    then show ?thesis using assms that by (auto simp add: courtInv_def)
  next
    case False
    then show ?thesis
      using skipUsed_skipped [of "court + 1" c' used] that by (cases "c' = court") auto
  qed
  then show ?thesis
    using assms ge skipUsed_free [of used "court + 1"]
    by (auto simp add: courtInv_def)
qed

lemma courtInv_lowest: "courtInv used cs court \<Longrightarrow> lowestFree (used @ cs) court"
  by (auto simp add: courtInv_def lowestFree_def)

lemma genLoop_courts:
  "courtInv used (map m_court created) court \<longrightarrow>
   (\<forall>k. length created \<le> k \<and> k < length (fst (genLoop coin sid used avail n i players court created d))
      \<longrightarrow> lowestFree (used @ map m_court (take k (fst (genLoop coin sid used avail n i players court created d))))
            (m_court (fst (genLoop coin sid used avail n i players court created d) ! k)))"
proof (induction n i players court created d rule: genLoop_induct [where avail = avail and coin = coin and used = used and sid = sid])
  case (stop n i players court created d)
  then have "genLoop coin sid used avail n i players court created d = (created, d)"
    by (rule genLoop_stop)
  then show ?case by auto
next
  case (step n i players court created d)
  let ?g = "slice i (i + 4) (maybeSwap (coin n) i players)"
  let ?m = "newMatch d sid court ?g"
  let ?r = "genLoop coin sid used avail (n + 1) (i + 4) (maybeSwap (coin n) i players)
      (skipUsed used (court + 1)) (created @ [?m])
      (deleteQueued sid ?g (createMatch ?m d))"
  show ?case
    unfolding genLoop_step [OF step(1,2)]
  proof (intro impI allI)
    fix k
    assume inv: "courtInv used (map m_court created) court"
      and k: "length created \<le> k \<and> k < length (fst ?r)"
    have mc: "m_court ?m = court"
      by (simp add: newMatch_def)
    obtain news where news: "fst ?r = (created @ [?m]) @ news"
      using genLoop_matches by blast
    show "lowestFree (used @ map m_court (take k (fst ?r))) (m_court (fst ?r ! k))"
    proof (cases "k = length created")
      case True
      then have "take k (fst ?r) = created" "fst ?r ! k = ?m"
        unfolding news by (simp_all add: nth_append)
      then show ?thesis
        using courtInv_lowest [OF inv] mc by simp
    next
      case False
      have "courtInv used (map m_court (created @ [?m])) (skipUsed used (court + 1))"
        using courtInv_next [OF inv] mc by simp
      then show ?thesis
        using step(3) k False by simp
    qed
  qed
qed


lemma generate_lowest:
  assumes "fst (generateUpcomingMatches d coin sid) = Inr ms" and "k < length ms"
  shows "lowestFree (activeCourts d sid @ map m_court (take k ms)) (m_court (ms ! k))"
proof (cases "\<exists>s us. findSession d sid = Some s
    \<and> \<not> max 0 (s_courts s - int (length (filter (activeMatch sid) (matches d)))) \<le> 0
    \<and> includeUsers d (sessionQueue d sid) = Some us")
  case True
  then obtain s us where s: "findSession d sid = Some s"
    and a: "\<not> max 0 (s_courts s - int (length (filter (activeMatch sid) (matches d)))) \<le> 0"
    and us: "includeUsers d (sessionQueue d sid) = Some us"
    by blast
  let ?r = "genLoop coin sid (activeCourts d sid)
       (max 0 (s_courts s - int (length (filter (activeMatch sid) (matches d))))) 0 0
       (sort_key u_rating us) (skipUsed (activeCourts d sid) 1) [] d"
  have "fst (generateUpcomingMatches d coin sid) = Inr (fst ?r)"
    using s a us by (simp add: generateUpcomingMatches_def Let_def)
  then have ms: "ms = fst ?r"
    using assms(1) by simp
  have "courtInv (activeCourts d sid) (map m_court []) (skipUsed (activeCourts d sid) 1)"
    using courtInv_start by simp
  then show ?thesis
    using genLoop_courts [of "activeCourts d sid" "[]" "skipUsed (activeCourts d sid) 1" coin sid
        "max 0 (s_courts s - int (length (filter (activeMatch sid) (matches d))))" 0 0
        "sort_key u_rating us" d] assms(2)
    unfolding ms by simp
next
  case False
  then have "\<forall>ms. fst (generateUpcomingMatches d coin sid) = Inr ms \<longrightarrow> ms = []"
    by (auto simp add: generateUpcomingMatches_def Let_def split: option.splits)
  then show ?thesis
    using assms by auto
qed

lemma courtsUnique_all: "courtsUnique d \<longleftrightarrow> (\<forall>sid. distinct (activeCourts d sid))"
proof
  assume u: "courtsUnique d"
  show "\<forall>sid. distinct (activeCourts d sid)"
  proof
    fix sid
    show "distinct (activeCourts d sid)"
    proof (cases "sid \<in> set (map m_sessionId (matches d))")
      case True
      then show ?thesis using u by (auto simp add: courtsUnique_def)
    next
      case False
      then have "filter (activeMatch sid) (matches d) = []"
        by (auto simp add: filter_empty_conv activeMatch_def)
      then show ?thesis by (simp add: activeCourts_def)
    qed
  qed
next
  assume "\<forall>sid. distinct (activeCourts d sid)"
  then show "courtsUnique d" by (simp add: courtsUnique_def)
qed

lemma distinct_lowest:
  "distinct used \<Longrightarrow> (\<forall>k < length cs. lowestFree (used @ take k cs) (cs ! k)) \<Longrightarrow> distinct (used @ cs)"
proof (induction cs rule: rev_induct)
  case Nil
  then show ?case by simp
next
  case (snoc c cs)
  have "\<forall>k < length cs. lowestFree (used @ take k cs) (cs ! k)"
  proof (intro allI impI)
    fix k assume k: "k < length cs"
    then have "lowestFree (used @ take k (cs @ [c])) ((cs @ [c]) ! k)"
      using snoc.prems(2) by simp
    then show "lowestFree (used @ take k cs) (cs ! k)"
      using k by (simp add: nth_append)
  qed
  then have d: "distinct (used @ cs)"
    using snoc by simp
  have "length cs < length (cs @ [c])"
    by simp
  then have "lowestFree (used @ take (length cs) (cs @ [c])) ((cs @ [c]) ! length cs)"
    using snoc.prems(2) by blast
  then have "c \<notin> set used \<union> set cs"
    by (simp add: lowestFree_def)
  then show ?case
    using d by simp
qed

lemma generate_courtsUnique:
  assumes "courtsUnique d"
  shows "courtsUnique (snd (generateUpcomingMatches d coin sid))"
proof (cases "fst (generateUpcomingMatches d coin sid)")
  case (Inl e)
  then have "snd (generateUpcomingMatches d coin sid) = d"
    by (auto simp add: generateUpcomingMatches_def Let_def split: option.splits if_splits)
  then show ?thesis using assms by simp
next
  case (Inr ms)
  let ?d = "snd (generateUpcomingMatches d coin sid)"
  have m: "matches ?d = matches d @ ms"
    using generate_matches [of d coin sid] Inr by auto
  have sch: "\<forall>m \<in> set ms. m_status m = SCHEDULED \<and> m_sessionId m = sid"
  proof (cases "findSession d sid")
    case None
    then show ?thesis using Inr by (simp add: generateUpcomingMatches_def)
  next
    case (Some s)
    show ?thesis
    proof (cases "includeUsers d (sessionQueue d sid)")
      case None
      then have "ms = []"
        using Inr Some by (auto simp add: generateUpcomingMatches_def Let_def split: if_splits)
      then show ?thesis by simp
    next
      case (Some us)
      then show ?thesis
        using generate_created [OF \<open>findSession d sid = Some s\<close> Some, of coin] Inr by auto
    qed
  qed
  have "distinct (activeCourts ?d sid')" for sid'
  proof (cases "sid' = sid")
    case True
    have "filter (activeMatch sid) ms = ms"
      using sch by (simp add: activeMatch_def)
    then have a: "activeCourts ?d sid = activeCourts d sid @ map m_court ms"
      by (simp add: activeCourts_def m)
    have "\<forall>k < length (map m_court ms).
        lowestFree (activeCourts d sid @ take k (map m_court ms)) (map m_court ms ! k)"
      using generate_lowest [OF Inr] by (simp add: take_map)
    moreover have "distinct (activeCourts d sid)"
      using assms by (simp add: courtsUnique_all)
    ultimately show ?thesis
      unfolding True a by (intro distinct_lowest)
  next
    case False
    then have "filter (activeMatch sid') ms = []"
      using sch by (auto simp add: activeMatch_def filter_empty_conv)
    then have "activeCourts ?d sid' = activeCourts d sid'"
      by (simp add: activeCourts_def m)
    then show ?thesis
      using assms by (simp add: courtsUnique_all)
  qed
  then show ?thesis
    by (simp add: courtsUnique_all)
qed


lemma courtsUnique_matches: "matches d' = matches d \<Longrightarrow> courtsUnique d' = courtsUnique d"
  by (simp add: courtsUnique_def activeCourts_def)

lemma joinQueue_matches: "matches (snd (joinQueue d now sid uid)) = matches d"
  by (simp add: joinQueue_def Let_def split: option.splits)

lemma active_updateFirst_same:
  "find P ms = Some m \<Longrightarrow> A (f m) = A m \<Longrightarrow> m_court (f m) = m_court m \<Longrightarrow>
   map m_court (filter A (updateFirst P f ms)) = map m_court (filter A ms)"
  by (induction ms) (auto split: if_splits)

lemma active_updateFirst_subset:
  "(\<And>x. \<not> A (f x)) \<Longrightarrow>
   set (map m_court (filter A (updateFirst P f ms))) \<subseteq> set (map m_court (filter A ms))"
  by (induction ms) auto

lemma active_updateFirst_distinct:
  assumes "\<And>x. \<not> A (f x)"
  shows "distinct (map m_court (filter A ms)) \<Longrightarrow> distinct (map m_court (filter A (updateFirst P f ms)))"
proof (induction ms)
  case Nil
  then show ?case by simp
next
  case (Cons x xs)
  show ?case
  proof (cases "P x")
    case True
    then show ?thesis using Cons.prems assms by (auto split: if_splits)
  next
    case False
    have "distinct (map m_court (filter A (updateFirst P f xs)))"
      using Cons by (auto split: if_splits)
    then show ?thesis
      using False Cons.prems active_updateFirst_subset [of A f P xs, OF assms]
      by (auto split: if_splits)
  qed
qed

lemma startMatch_courtsUnique:
  assumes "courtsUnique d" and "\<forall>m. findMatch d i = Some m \<longrightarrow> m_status m \<noteq> FINISHED"
  shows "courtsUnique (snd (startMatch d now i))"
proof (cases "findMatch d i")
  case None
  then show ?thesis using assms(1) by (simp add: startMatch_def)
next
  case (Some m)
  then have nf: "m_status m \<noteq> FINISHED"
    using assms(2) by simp
  let ?f = "\<lambda>x. x\<lparr>m_status := ONGOING, m_startedAt := Some now\<rparr>"
  have "activeMatch sid (?f m) = activeMatch sid m" for sid
    using nf by (cases "m_status m") (simp_all add: activeMatch_def)
  then have "activeCourts (snd (startMatch d now i)) sid = activeCourts d sid" for sid
    using Some active_updateFirst_same [of "\<lambda>x. m_id x = i" "matches d" m "activeMatch sid" ?f]
    by (simp add: startMatch_def activeCourts_def findMatch_def)
  then show ?thesis
    using assms(1) by (simp add: courtsUnique_all)
qed

lemma finished_courtsUnique:
  assumes "courtsUnique d"
  shows "courtsUnique (d\<lparr>matches := updateFirst P
      (\<lambda>x. x\<lparr>m_status := FINISHED, m_winnerTeam := w, m_endedAt := t\<rparr>) (matches d)\<rparr>)"
proof -
  have "\<not> activeMatch sid (x\<lparr>m_status := FINISHED, m_winnerTeam := w, m_endedAt := t\<rparr>)" for sid x
    by (simp add: activeMatch_def)
  then have "distinct (map m_court (filter (activeMatch sid) (updateFirst P
      (\<lambda>x. x\<lparr>m_status := FINISHED, m_winnerTeam := w, m_endedAt := t\<rparr>) (matches d))))" for sid
    using assms by (intro active_updateFirst_distinct) (simp_all add: courtsUnique_all activeCourts_def)
  then show ?thesis
    by (simp add: courtsUnique_all activeCourts_def)
qed

lemma finishMatch_courtsUnique:
  assumes "courtsUnique d"
  shows "courtsUnique (snd (finishMatch d coin now i body))"
proof -
  have a: "courtsUnique (recordResult d i m p1 p2 p3 p4 w)" for m p1 p2 p3 p4 w
    using assms courtsUnique_matches [of "recordResult d i m p1 p2 p3 p4 w" d]
    by (simp add: recordResult_frame)
  have b: "courtsUnique (snd (generateUpcomingMatches
      ((recordResult d i m p1 p2 p3 p4 w)\<lparr>matches := updateFirst P
          (\<lambda>x. x\<lparr>m_status := FINISHED, m_winnerTeam := v, m_endedAt := t\<rparr>)
          (matches (recordResult d i m p1 p2 p3 p4 w))\<rparr>) coin sid))" for m p1 p2 p3 p4 w P v t sid
    by (intro generate_courtsUnique finished_courtsUnique a)
  show ?thesis
    using assms a b
    by (auto simp add: finishMatch_def Let_def split: option.splits sum.splits)
qed

text \<open>
  C5, as stated: every operation should keep the courts of the scheduled and ongoing
  matches of a session distinct. A start on a FINISHED match makes it ONGOING again on its
  old court, which the scheduler may have given to a later match in the meantime: here
  court 1 is then held twice.
\<close>

theorem startMatch_breaks_courts_unique:
  "courtsUnique stateCourtReused
   \<and> activeCourts stateCourtReused 10 = [1]
   \<and> \<not> isl (fst (startMatch stateCourtReused 9 20))
   \<and> activeCourts (snd (startMatch stateCourtReused 9 20)) 10 = [1, 1]
   \<and> \<not> courtsUnique (snd (startMatch stateCourtReused 9 20))"
  by (simp add: stateCourtReused_def courtsUnique_def activeCourts_def activeMatch_def
      startMatch_def findMatch_def)

text \<open>
  C5, amended. From a state where the courts of the scheduled and ongoing matches of every
  session are distinct, joining the queue, generating matches and finishing a match lead to
  such a state again, and so does starting a match that is absent or not FINISHED. Every
  match the scheduler creates gets the lowest court number from 1 on that no scheduled or
  ongoing match of the session holds at that moment (those of before the call and those
  created earlier in it); finished matches do not count.
\<close>

theorem courts_unique_preserved:
  assumes "courtsUnique d"
  shows "courtsUnique (snd (joinQueue d now sid uid))
     \<and> courtsUnique (snd (generateUpcomingMatches d coin sid))
     \<and> courtsUnique (snd (finishMatch d coin now i body))
     \<and> ((\<forall>m. findMatch d i = Some m \<longrightarrow> m_status m \<noteq> FINISHED)
          \<longrightarrow> courtsUnique (snd (startMatch d now i)))
     \<and> (\<forall>ms k. fst (generateUpcomingMatches d coin sid) = Inr ms \<and> k < length ms
          \<longrightarrow> lowestFree (activeCourts d sid @ map m_court (take k ms)) (m_court (ms ! k)))"
proof (intro conjI impI allI)
  show "courtsUnique (snd (joinQueue d now sid uid))"
    using assms courtsUnique_matches [OF joinQueue_matches, of d now sid uid] by simp
next
  show "courtsUnique (snd (generateUpcomingMatches d coin sid))"
    using assms by (rule generate_courtsUnique)
next
  show "courtsUnique (snd (finishMatch d coin now i body))"
    using assms by (rule finishMatch_courtsUnique)
next
  assume "\<forall>m. findMatch d i = Some m \<longrightarrow> m_status m \<noteq> FINISHED"
  with assms show "courtsUnique (snd (startMatch d now i))"
    by (rule startMatch_courtsUnique)
next
  fix ms k
  assume "fst (generateUpcomingMatches d coin sid) = Inr ms \<and> k < length ms"
  then show "lowestFree (activeCourts d sid @ map m_court (take k ms)) (m_court (ms ! k))"
    using generate_lowest by blast
qed

theorem courts_unique_preserved_witness:
  "courtsUnique stateWaiting
   \<and> findMatch stateWaiting 20 = Some (hd (matches stateWaiting))
   \<and> m_status (hd (matches stateWaiting)) = ONGOING
   \<and> courtsUnique (snd (joinQueue stateWaiting 9 10 3))
   \<and> courtsUnique (snd (generateUpcomingMatches stateWaiting swapFirst 10))
   \<and> courtsUnique (snd (finishMatch stateWaiting swapFirst 9 20 (JNumber 1)))
   \<and> courtsUnique (snd (startMatch stateWaiting 9 20))
   \<and> activeCourts stateWaiting 10 = [1]
   \<and> map m_court (projr (fst (generateUpcomingMatches stateWaiting swapFirst 10))) = [2]
   \<and> lowestFree (activeCourts stateWaiting 10
         @ map m_court (take 0 (projr (fst (generateUpcomingMatches stateWaiting swapFirst 10)))))
       (m_court (projr (fst (generateUpcomingMatches stateWaiting swapFirst 10)) ! 0))"
proof -
  have a: "courtsUnique stateWaiting"
    by (simp add: stateWaiting_def courtsUnique_def activeCourts_def activeMatch_def)
  have b: "findMatch stateWaiting 20 = Some (hd (matches stateWaiting))"
    "m_status (hd (matches stateWaiting)) = ONGOING"
    by (simp_all add: stateWaiting_def findMatch_def)
  have c: "activeCourts stateWaiting 10 = [1]"
    by (simp add: stateWaiting_def activeCourts_def activeMatch_def)
  have g: "fst (generateUpcomingMatches stateWaiting swapFirst 10)
      = Inr [\<lparr>m_id = 100, m_sessionId = 10, m_court = 2, m_status = SCHEDULED,
                  m_startedAt = None, m_endedAt = None, m_p1Id = 4, m_p2Id = 2, m_p3Id = 5,
                  m_p4Id = 1, m_winnerTeam = None\<rparr>]"
    by (simp add: waiting_eval generateUpcomingMatches_def activeCourts_def Let_def skipUsed.simps
      genLoop.simps maybeSwap_def slice_def newMatch_def createMatch_def deleteQueued_def)
  have h: "\<forall>m. findMatch stateWaiting 20 = Some m \<longrightarrow> m_status m \<noteq> FINISHED"
    using b by simp
  have k: "(0::nat) < length [\<lparr>m_id = 100, m_sessionId = 10, m_court = 2, m_status = SCHEDULED,
                  m_startedAt = None, m_endedAt = None, m_p1Id = 4, m_p2Id = 2, m_p3Id = 5,
                  m_p4Id = 1, m_winnerTeam = None\<rparr>]"
    by simp
  note t = courts_unique_preserved [OF a, of 9 10 3 swapFirst 20 "JNumber 1"]
  have l: "lowestFree (activeCourts stateWaiting 10
         @ map m_court (take 0 (projr (fst (generateUpcomingMatches stateWaiting swapFirst 10)))))
       (m_court (projr (fst (generateUpcomingMatches stateWaiting swapFirst 10)) ! 0))"
    using t g k unfolding g by (metis sum.sel(2))
  have j: "courtsUnique (snd (joinQueue stateWaiting 9 10 3))"
    using courts_unique_preserved [OF a, of 9 10 3 swapFirst 20 "JNumber 1"] by blast
  show ?thesis
    using a b c t h l j unfolding g by simp
qed

end
